theory Spec2Isabelle
  imports Complex_Main "HOL-Library.Log_Nat"
begin

section \<open>Python numbers\<close>

subsection \<open>Floats: IEEE 754 binary64 values as rationals\<close>

text \<open>
  Python's \<open>float\<close> is a binary64 double. A finite double is a rational number
  \<open>m * 2 ^ e\<close> with \<open>\<bar>m\<bar> < 2 ^ 53\<close>; every float operation of the script computes the
  exact result and rounds it to the nearest such number, ties to the even mantissa.
  \<open>round_double\<close> is that rounding. The exponent range is not modelled: for images
  with sides below \<open>2 ^ 31\<close> every float of the script is \<open>0\<close> or lies between
  \<open>2 ^ - 4\<close> and \<open>2 ^ 33\<close>, far from overflow and from the subnormal numbers.
\<close>

definition round_half_even :: "rat \<Rightarrow> int" where
  "round_half_even q =
     (let f = \<lfloor>q\<rfloor>; r = q - of_int f
      in if r < 1 / 2 then f else if 1 / 2 < r then f + 1 else if even f then f else f + 1)"

text \<open>The binade of \<open>q \<noteq> 0\<close> is the \<open>e\<close> with \<open>2 ^ e \<le> \<bar>q\<bar> < 2 ^ (e + 1)\<close>.\<close>

definition binade :: "rat \<Rightarrow> int" where
  "binade q =
     (case quotient_of \<bar>q\<bar> of
        (a, b) \<Rightarrow> let d = bitlen a - bitlen b in if 2 powi d \<le> \<bar>q\<bar> then d else d - 1)"

definition round_double :: "rat \<Rightarrow> rat" where
  "round_double q =
     (if q = 0 then 0
      else let e = binade q
           in of_int (round_half_even (q * 2 powi (52 - e))) * 2 powi (e - 52))"

subsection \<open>The numeric tower: \<open>int\<close> and \<open>float\<close>\<close>

datatype pynum = PInt int | PFloat rat

fun py_value :: "pynum \<Rightarrow> rat" where
  "py_value (PInt n) = of_int n"
| "py_value (PFloat x) = x"

text \<open>\<open>float(x)\<close>, the conversion applied to an \<open>int\<close> operand of a mixed operation.\<close>

fun py_float :: "pynum \<Rightarrow> rat" where
  "py_float (PInt n) = round_double (of_int n)"
| "py_float (PFloat x) = x"

text \<open>A float literal such as \<open>0.4\<close> denotes the double nearest to the decimal.\<close>

definition float_lit :: "rat \<Rightarrow> pynum" where
  "float_lit q = PFloat (round_double q)"

fun py_mul :: "pynum \<Rightarrow> pynum \<Rightarrow> pynum" where
  "py_mul (PInt a) (PInt b) = PInt (a * b)"
| "py_mul a b = PFloat (round_double (py_float a * py_float b))"

fun py_add :: "pynum \<Rightarrow> pynum \<Rightarrow> pynum" where
  "py_add (PInt a) (PInt b) = PInt (a + b)"
| "py_add a b = PFloat (round_double (py_float a + py_float b))"

fun py_sub :: "pynum \<Rightarrow> pynum \<Rightarrow> pynum" where
  "py_sub (PInt a) (PInt b) = PInt (a - b)"
| "py_sub a b = PFloat (round_double (py_float a - py_float b))"

text \<open>
  \<open>x // 2\<close>. On an \<open>int\<close> it is floor division. On a float CPython computes
  \<open>floor ((x - fmod (x, 2)) / 2)\<close>; \<open>fmod\<close> is exact, and so are the subtraction and
  the division by two, so the result is the floor of \<open>x / 2\<close>, as a float.
\<close>

fun py_floordiv2 :: "pynum \<Rightarrow> pynum" where
  "py_floordiv2 (PInt a) = PInt (a div 2)"
| "py_floordiv2 (PFloat x) = PFloat (round_double (of_int \<lfloor>x / 2\<rfloor>))"

text \<open>
  \<open>min(a, b)\<close> keeps its first argument unless the second is strictly smaller;
  Python compares an \<open>int\<close> with a float by their exact values.
\<close>

definition py_min :: "pynum \<Rightarrow> pynum \<Rightarrow> pynum" where
  "py_min a b = (if py_value b < py_value a then b else a)"

text \<open>\<open>int(x)\<close> truncates a float towards zero.\<close>

fun py_int :: "pynum \<Rightarrow> int" where
  "py_int (PInt n) = n"
| "py_int (PFloat x) = (if 0 \<le> x then \<lfloor>x\<rfloor> else \<lceil>x\<rceil>)"

subsection \<open>\<open>str\<close> of an \<open>int\<close>\<close>

definition digit_char :: "nat \<Rightarrow> char" where
  "digit_char d = ''0123456789'' ! d"

function str_nat :: "nat \<Rightarrow> string" where
  "str_nat n = (if n < 10 then [digit_char n] else str_nat (n div 10) @ [digit_char (n mod 10)])"
  by pat_completeness auto
termination
  by (relation "measure id") auto

definition py_str :: "int \<Rightarrow> string" where
  "py_str n = (if n < 0 then CHR ''-'' # str_nat (nat (- n)) else str_nat (nat n))"

section \<open>Configuration\<close>

type_synonym pixel = "nat list"

definition BACKGROUND_COLOR :: pixel where
  "BACKGROUND_COLOR = [10, 10, 10, 255]"

definition OUTPUT_DIR :: string where
  "OUTPUT_DIR = ''image''"

definition SOURCE_LOGO :: string where
  "SOURCE_LOGO = ''image/gcaLogo.png''"

definition ICON_SIZES :: "int list" where
  "ICON_SIZES = [72, 96, 128, 144, 152, 192, 384, 512]"

section \<open>The crop box\<close>

type_synonym box = "int \<times> int \<times> int \<times> int"

text \<open>The box \<open>(left, top, right, bottom)\<close> computed from the size of the logo.\<close>

definition initial_box :: "int \<Rightarrow> int \<Rightarrow> box" where
  "initial_box orig_width orig_height =
     (let center_x = orig_width div 2;
          center_y = orig_height div 2;
          crop_size = py_min (PInt orig_height) (py_mul (PInt orig_width) (float_lit (4 / 10)));
          half_crop = py_int (py_floordiv2 crop_size);
          left = center_x - half_crop;
          top' = py_int (py_sub (PInt center_y) (py_mul (PInt half_crop) (float_lit (9 / 10))));
          right = center_x + half_crop;
          bottom = py_int (py_add (PInt center_y) (py_mul (PInt half_crop) (float_lit (11 / 10))))
      in (left, top', right, bottom))"

text \<open>
  The variable \<open>half_crop\<close> on its own: the same expression as in \<open>initial_box\<close>,
  named so that the lemmas about the box can speak of it.
\<close>

definition half_crop :: "int \<Rightarrow> int \<Rightarrow> int" where
  "half_crop orig_width orig_height =
     (let crop_size = py_min (PInt orig_height) (py_mul (PInt orig_width) (float_lit (4 / 10)))
      in py_int (py_floordiv2 crop_size))"

definition box_width :: "box \<Rightarrow> int" where
  "box_width bx = (case bx of (left, top', right, bottom) \<Rightarrow> right - left)"

definition box_height :: "box \<Rightarrow> int" where
  "box_height bx = (case bx of (left, top', right, bottom) \<Rightarrow> bottom - top')"

text \<open>``Make it square'': the shorter side grows by \<open>diff // 2\<close> at each end.\<close>

definition make_square :: "box \<Rightarrow> box" where
  "make_square bx =
     (case bx of (left, top', right, bottom) \<Rightarrow>
        let crop_width = right - left;
            crop_height = bottom - top'
        in if crop_height > crop_width then
             let diff = crop_height - crop_width
             in (left - diff div 2, top', right + diff div 2, bottom)
           else if crop_width > crop_height then
             let diff = crop_width - crop_height
             in (left, top' - diff div 2, right, bottom + diff div 2)
           else (left, top', right, bottom))"

text \<open>``Ensure bounds are valid''.\<close>

definition clamp_box :: "int \<Rightarrow> int \<Rightarrow> box \<Rightarrow> box" where
  "clamp_box orig_width orig_height bx =
     (case bx of (left, top', right, bottom) \<Rightarrow>
        (max 0 left, max 0 top', min orig_width right, min orig_height bottom))"

definition crop_box :: "int \<Rightarrow> int \<Rightarrow> box" where
  "crop_box orig_width orig_height =
     clamp_box orig_width orig_height (make_square (initial_box orig_width orig_height))"

text \<open>A box reaches outside a \<open>w \<times> h\<close> image.\<close>

definition exceeds :: "int \<Rightarrow> int \<Rightarrow> box \<Rightarrow> bool" where
  "exceeds w h bx = (case bx of (left, top', right, bottom) \<Rightarrow> left < 0 \<or> top' < 0 \<or> w < right \<or> h < bottom)"

text \<open>
  The sides of an image that \<open>Image.open\<close> returns: at least one pixel, and below
  \<open>2 ^ 31\<close>, since the imaging core keeps both in a C \<open>int\<close>.
\<close>

definition valid_size :: "int \<Rightarrow> int \<Rightarrow> bool" where
  "valid_size w h = (1 \<le> w \<and> w < 2 ^ 31 \<and> 1 \<le> h \<and> h < 2 ^ 31)"


section \<open>Images\<close>

text \<open>
  The script works on images through the imaging library. An image is its mode, its
  size and its pixels; a pixel is the list of its bands, four in mode \<open>RGBA\<close> and
  three in mode \<open>RGB\<close>. Only these two modes occur after \<open>convert("RGBA")\<close>.
\<close>

datatype mode = RGBA | RGB

record image =
  mode :: mode
  width :: int
  height :: int
  getpixel :: "int \<times> int \<Rightarrow> pixel"

datatype error = FileNotFoundError | ValueError

definition bands :: "mode \<Rightarrow> nat" where
  "bands m = (case m of RGBA \<Rightarrow> 4 | RGB \<Rightarrow> 3)"

definition inside :: "image \<Rightarrow> int \<times> int \<Rightarrow> bool" where
  "inside im p = (0 \<le> fst p \<and> fst p < width im \<and> 0 \<le> snd p \<and> snd p < height im)"

text \<open>
  \<open>Image.new(mode, size, color)\<close>: every pixel has the given colour. The script calls it
  with sides that are never negative, so the \<open>ValueError\<close> of a negative side is left out.
\<close>

definition new_image :: "mode \<Rightarrow> int \<times> int \<Rightarrow> pixel \<Rightarrow> image" where
  "new_image m sz color = \<lparr>mode = m, width = fst sz, height = snd sz, getpixel = (\<lambda>p. color)\<rparr>"

text \<open>
  \<open>im.crop(box)\<close> raises \<open>ValueError\<close> when the right edge is left of the left edge or the
  lower edge is above the upper one. Pixels of the box outside the image are zero.
\<close>

definition crop :: "image \<Rightarrow> box \<Rightarrow> error + image" where
  "crop im bx =
     (case bx of (left, upper, right, lower) \<Rightarrow>
        if right < left \<or> lower < upper then Inl ValueError
        else Inr \<lparr>mode = mode im, width = right - left, height = lower - upper,
                  getpixel = (\<lambda>(x, y). if inside im (x + left, y + upper)
                                         then getpixel im (x + left, y + upper)
                                         else replicate (bands (mode im)) 0)\<rparr>)"

text \<open>
  What the script takes from the library without fixing it itself: how a band of the
  destination is mixed with a band of the pasted image under a mask value, and the
  pixels that Lanczos resampling of an image to a given size produces.
\<close>

record pil =
  blend :: "nat \<Rightarrow> nat \<Rightarrow> nat \<Rightarrow> nat"
  lanczos :: "image \<Rightarrow> int \<times> int \<Rightarrow> int \<times> int \<Rightarrow> pixel"

text \<open>The mask value of a pixel of an \<open>RGBA\<close> mask is its alpha band.\<close>

definition alpha :: "pixel \<Rightarrow> nat" where
  "alpha p = (case p of [r, g, b, a] \<Rightarrow> a | _ \<Rightarrow> 255)"

text \<open>
  \<open>dst.paste(src, (x, y), mask)\<close> changes the pixels of \<open>dst\<close> that \<open>src\<close>, put with
  its upper left corner at \<open>(x, y)\<close>, covers; the part of \<open>src\<close> outside \<open>dst\<close> is cut
  off. Pasting an \<open>RGBA\<close> image into an \<open>RGB\<close> one mixes the three colour bands.
  Every mask of the script is an \<open>RGBA\<close> image of the size of \<open>src\<close>.
\<close>

definition paste :: "pil \<Rightarrow> image \<Rightarrow> image \<Rightarrow> int \<times> int \<Rightarrow> image \<Rightarrow> image" where
  "paste lib dst src pos mask' =
     dst\<lparr>getpixel := (\<lambda>(x, y).
            let sx = x - fst pos; sy = y - snd pos
            in if inside dst (x, y) \<and> inside src (sx, sy)
               then map2 (blend lib (alpha (getpixel mask' (sx, sy))))
                         (getpixel dst (x, y)) (getpixel src (sx, sy))
               else getpixel dst (x, y))\<rparr>"

text \<open>\<open>im.resize(size, LANCZOS)\<close> raises \<open>ValueError\<close> unless both sides are positive.\<close>

definition resize :: "pil \<Rightarrow> image \<Rightarrow> int \<times> int \<Rightarrow> error + image" where
  "resize lib im sz =
     (if fst sz < 1 \<or> snd sz < 1 then Inl ValueError
      else Inr \<lparr>mode = mode im, width = fst sz, height = snd sz, getpixel = lanczos lib im sz\<rparr>)"

text \<open>
  The file system maps a path to the image stored there; a PNG file keeps the mode,
  the size and the pixels of an image. \<open>Image.open\<close> raises \<open>FileNotFoundError\<close> for
  a missing file.
\<close>

type_synonym filesystem = "string \<Rightarrow> image option"

definition open_image :: "filesystem \<Rightarrow> string \<Rightarrow> error + image" where
  "open_image fs path = (case fs path of None \<Rightarrow> Inl FileNotFoundError | Some im \<Rightarrow> Inr im)"

definition convert_rgba :: "image \<Rightarrow> image" where
  "convert_rgba im =
     (case mode im of
        RGBA \<Rightarrow> im
      | RGB \<Rightarrow> im\<lparr>mode := RGBA, getpixel := (\<lambda>p. getpixel im p @ [255])\<rparr>)"

definition save :: "filesystem \<Rightarrow> string \<Rightarrow> image \<Rightarrow> filesystem" where
  "save fs path im = fs(path \<mapsto> im)"

text \<open>\<open>os.path.join\<close> of two components, with \<open>/\<close> as the separator.\<close>

definition path_join :: "string \<Rightarrow> string \<Rightarrow> string" where
  "path_join a b =
     (if b \<noteq> [] \<and> hd b = CHR ''/'' then b
      else if a = [] \<or> last a = CHR ''/'' then a @ b
      else a @ ''/'' @ b)"

section \<open>The generator\<close>

text \<open>The cropped logo on a transparent square.\<close>

definition pad_square :: "pil \<Rightarrow> image \<Rightarrow> image" where
  "pad_square lib cropped =
     (let cropped_w = width cropped;
          cropped_h = height cropped;
          max_dim = max cropped_w cropped_h;
          square = new_image RGBA (max_dim, max_dim) [0, 0, 0, 0];
          paste_x = (max_dim - cropped_w) div 2;
          paste_y = (max_dim - cropped_h) div 2
      in paste lib square cropped (paste_x, paste_y) cropped)"

definition padding_percent :: pynum where
  "padding_percent = float_lit (10 / 100)"

definition logo_size :: "int \<Rightarrow> int" where
  "logo_size sz = py_int (py_mul (PInt sz) (py_sub (PInt 1) (py_mul padding_percent (PInt 2))))"

definition offset :: "int \<Rightarrow> int" where
  "offset sz = (sz - logo_size sz) div 2"

text \<open>The body of the loop up to the image that is saved.\<close>

definition make_icon :: "pil \<Rightarrow> image \<Rightarrow> int \<Rightarrow> error + image" where
  "make_icon lib square sz =
     (let icon = new_image RGBA (sz, sz) BACKGROUND_COLOR
      in case resize lib square (logo_size sz, logo_size sz) of
           Inl e \<Rightarrow> Inl e
         | Inr resized_logo \<Rightarrow>
             let icon' = paste lib icon resized_logo (offset sz, offset sz) resized_logo;
                 icon_rgb = new_image RGB (sz, sz) (take 3 BACKGROUND_COLOR)
             in Inr (paste lib icon_rgb icon' (0, 0) icon'))"

definition output_path :: "int \<Rightarrow> string" where
  "output_path sz = path_join OUTPUT_DIR (''icon-'' @ py_str sz @ ''x'' @ py_str sz @ ''.png'')"

text \<open>
  The loop over the sizes. An exception ends it; the files written before stay.
\<close>

fun save_icons :: "pil \<Rightarrow> image \<Rightarrow> int list \<Rightarrow> filesystem \<Rightarrow> filesystem \<times> error option" where
  "save_icons lib square [] fs = (fs, None)"
| "save_icons lib square (sz # sizes) fs =
     (case make_icon lib square sz of
        Inl e \<Rightarrow> (fs, Some e)
      | Inr icon_rgb \<Rightarrow> save_icons lib square sizes (save fs (output_path sz) icon_rgb))"

text \<open>
  The whole script: the file system it leaves and the exception it ends with, if any.
  What it prints is not modelled.
\<close>

definition create_pwa_icons :: "pil \<Rightarrow> filesystem \<Rightarrow> filesystem \<times> error option" where
  "create_pwa_icons lib fs =
     (case open_image fs SOURCE_LOGO of
        Inl e \<Rightarrow> (fs, Some e)
      | Inr opened \<Rightarrow>
          let original = convert_rgba opened;
              orig_width = width original;
              orig_height = height original
          in case crop original (crop_box orig_width orig_height) of
               Inl e \<Rightarrow> (fs, Some e)
             | Inr cropped \<Rightarrow> save_icons lib (pad_square lib cropped) ICON_SIZES fs)"


section \<open>Rounding lemmas\<close>

lemma rhe_bounds:
  assumes "of_int lo \<le> q" "q \<le> of_int hi"
  shows "lo \<le> round_half_even q \<and> round_half_even q \<le> hi"
proof -
  have a: "lo \<le> \<lfloor>q\<rfloor>" using assms(1) by (simp add: le_floor_iff)
  have b: "\<lfloor>q\<rfloor> \<le> hi" using assms(2) by (simp add: floor_le_iff)
  have c: "q - of_int \<lfloor>q\<rfloor> \<noteq> 0 \<Longrightarrow> \<lfloor>q\<rfloor> + 1 \<le> hi"
    using assms(2) by linarith
  have d: "\<not> q - of_int \<lfloor>q\<rfloor> < 1 / 2 \<Longrightarrow> q - of_int \<lfloor>q\<rfloor> \<noteq> 0" by auto
  show ?thesis using a b c d unfolding round_half_even_def Let_def by auto
qed

lemma rhe_near:
  assumes "\<bar>q - of_int m\<bar> < 1 / 2"
  shows "round_half_even q = m"
proof -
  have "\<lfloor>q\<rfloor> = m \<and> q - of_int m < 1 / 2 \<or> \<lfloor>q\<rfloor> = m - 1 \<and> 1 / 2 < q - of_int (m - 1)"
    using assms by (cases "of_int m \<le> q") (auto simp: floor_eq_iff abs_if split: if_splits)
  then show ?thesis unfolding round_half_even_def Let_def by auto
qed

lemma bitlen_powi:
  assumes "0 < x"
  shows "2 powi (bitlen x - 1) \<le> (of_int x :: rat)" and "(of_int x :: rat) < 2 powi bitlen x"
proof -
  have ge: "1 \<le> bitlen x" using assms by (auto simp: bitlen_alt_def)
  have b: "2 ^ nat (bitlen x - 1) \<le> x" "x < 2 ^ nat (bitlen x)"
    using bitlen_bounds [OF assms] by auto
  have "(of_int (2 ^ nat (bitlen x - 1)) :: rat) \<le> of_int x"
    using b(1) by (simp only: of_int_le_iff)
  then show "2 powi (bitlen x - 1) \<le> (of_int x :: rat)"
    using ge by (simp add: power_int_def)
  have "(of_int x :: rat) < of_int (2 ^ nat (bitlen x))"
    using b(2) by (simp only: of_int_less_iff)
  then show "(of_int x :: rat) < 2 powi bitlen x"
    using ge by (simp add: power_int_def)
qed

lemma binade_bounds:
  assumes "q \<noteq> 0"
  shows "2 powi binade q \<le> \<bar>q\<bar> \<and> \<bar>q\<bar> < 2 powi (binade q + 1)"
proof -
  obtain a b where ab: "quotient_of \<bar>q\<bar> = (a, b)" by (cases "quotient_of \<bar>q\<bar>")
  have bpos: "0 < b" using ab by (rule quotient_of_denom_pos)
  have q: "\<bar>q\<bar> = of_int a / of_int b" using ab by (rule quotient_of_div)
  have qpos: "0 < \<bar>q\<bar>" using assms by simp
  have apos: "0 < a" using qpos bpos unfolding q by (simp add: zero_less_divide_iff)
  define d where "d = bitlen a - bitlen b"
  have A: "2 powi (bitlen a - 1) \<le> (of_int a :: rat)" "(of_int a :: rat) < 2 powi bitlen a"
    using bitlen_powi [OF apos] by auto
  have B: "2 powi (bitlen b - 1) \<le> (of_int b :: rat)" "(of_int b :: rat) < 2 powi bitlen b"
    using bitlen_powi [OF bpos] by auto
  have bp: "(0::rat) < of_int b" using bpos by simp
  have up: "\<bar>q\<bar> < 2 powi (d + 1)"
  proof -
    have "of_int a * 2 powi (bitlen b - 1) < 2 powi bitlen a * (of_int b :: rat)"
      using A(2) B(1) apos bp by (intro mult_less_le_imp_less) auto
    then have "of_int a / of_int b < 2 powi bitlen a / (2 powi (bitlen b - 1) :: rat)"
      using bp by (simp add: field_simps)
    also have "\<dots> = 2 powi (d + 1)"
      unfolding d_def by (simp add: power_int_diff [symmetric] algebra_simps)
    finally show ?thesis unfolding q .
  qed
  have lo: "2 powi (d - 1) \<le> \<bar>q\<bar>"
  proof -
    have "2 powi (bitlen a - 1) * (of_int b :: rat) \<le> of_int a * 2 powi bitlen b"
      using A(1) B(2) apos bp by (intro mult_mono) auto
    then have "2 powi (bitlen a - 1) / (2 powi bitlen b :: rat) \<le> of_int a / of_int b"
      using bp by (simp add: field_simps)
    moreover have "2 powi (bitlen a - 1) / (2 powi bitlen b :: rat) = 2 powi (d - 1)"
      unfolding d_def by (simp add: power_int_diff [symmetric] algebra_simps)
    ultimately show ?thesis unfolding q by simp
  qed
  have "binade q = (if 2 powi d \<le> \<bar>q\<bar> then d else d - 1)"
    unfolding binade_def ab d_def by (simp add: Let_def)
  then show ?thesis using up lo by (auto simp: not_le)
qed

lemma powi2_less_cancel: "(2::rat) powi a < 2 powi b \<Longrightarrow> a < b"
  by (rule ccontr) (use power_int_increasing [of b a "2::rat"] in auto)

lemma binade_unique:
  assumes "2 powi e \<le> \<bar>q\<bar>" "\<bar>q\<bar> < 2 powi (e + 1)"
  shows "binade q = e"
proof -
  have "(0::rat) < 2 powi e" by (simp add: zero_less_power_int)
  then have "q \<noteq> 0" using assms(1) by (cases "q = 0") (simp_all add: not_le [symmetric])
  from binade_bounds [OF this]
  have b: "2 powi binade q \<le> \<bar>q\<bar>" "\<bar>q\<bar> < 2 powi (binade q + 1)" by auto
  have "(2::rat) powi e < 2 powi (binade q + 1)" using assms(1) b(2) by simp
  then have 1: "e < binade q + 1" by (rule powi2_less_cancel)
  have "(2::rat) powi binade q < 2 powi (e + 1)" using assms(2) b(1) by simp
  then have 2: "binade q < e + 1" by (rule powi2_less_cancel)
  show ?thesis using 1 2 by simp
qed

text \<open>
  Rounding never crosses a double. Multiples of \<open>1 / 16\<close> below \<open>2 ^ 49\<close> are doubles, so
  a value between two of them stays between them.
\<close>

lemma round_double_sandwich:
  assumes "0 < x" "of_int a / 16 \<le> x" "x \<le> of_int b / 16" "b < 2 ^ 53"
  shows "of_int a / 16 \<le> round_double x \<and> round_double x \<le> of_int b / 16"
proof -
  define e where "e = binade x"
  have xn: "x \<noteq> 0" and ax: "\<bar>x\<bar> = x" using assms(1) by auto
  have eb: "2 powi e \<le> x" "x < 2 powi (e + 1)"
    using binade_bounds [OF xn] unfolding e_def ax by auto
  have "(of_int b :: rat) < of_int (2 ^ 53)" using assms(4) by (simp only: of_int_less_iff)
  then have "x < 2 ^ 49" using assms(3) by simp
  then have "(2::rat) powi e < 2 powi 49" using eb(1) by simp
  then have e49: "e < 49" by (rule powi2_less_cancel)
  define k where "k = nat (48 - e)"
  have p1: "(2::rat) powi (52 - e) = 16 * 2 ^ k"
  proof -
    have "52 - e = 4 + int k" using e49 unfolding k_def by simp
    then have "(2::rat) powi (52 - e) = 2 powi (4 + int k)" by (simp only:)
    also have "\<dots> = 2 powi 4 * 2 powi int k" by (rule power_int_add) simp
    finally show ?thesis by simp
  qed
  have p2: "(2::rat) powi (e - 52) = 1 / (16 * 2 ^ k)"
  proof -
    have "e - 52 = - (52 - e)" by simp
    then show ?thesis unfolding p1 [symmetric] by (simp only: power_int_minus_divide)
  qed
  define y where "y = x * 2 powi (52 - e)"
  have kp: "(0::rat) < 2 ^ k" by simp
  have "of_int a / 16 * (16 * 2 ^ k) \<le> x * (16 * 2 ^ k)"
    using assms(2) kp by (intro mult_right_mono) auto
  then have lo: "of_int (a * 2 ^ k) \<le> y" unfolding y_def p1 by simp
  have "x * (16 * 2 ^ k) \<le> of_int b / 16 * (16 * 2 ^ k)"
    using assms(3) kp by (intro mult_right_mono) auto
  then have hi: "y \<le> of_int (b * 2 ^ k)" unfolding y_def p1 by simp
  from rhe_bounds [OF lo hi]
  have r: "a * 2 ^ k \<le> round_half_even y" "round_half_even y \<le> b * 2 ^ k" by auto
  have rd: "round_double x = of_int (round_half_even y) / (16 * 2 ^ k)"
    unfolding round_double_def y_def e_def [symmetric] using xn by (simp add: Let_def p2)
  have "(of_int (a * 2 ^ k) :: rat) \<le> of_int (round_half_even y)"
    using r(1) by (simp only: of_int_le_iff)
  then have "(of_int (a * 2 ^ k) :: rat) / (16 * 2 ^ k) \<le> round_double x"
    unfolding rd using kp by (intro divide_right_mono) auto
  then have 1: "of_int a / 16 \<le> round_double x" by simp
  have "(of_int (round_half_even y) :: rat) \<le> of_int (b * 2 ^ k)"
    using r(2) by (simp only: of_int_le_iff)
  then have "round_double x \<le> (of_int (b * 2 ^ k) :: rat) / (16 * 2 ^ k)"
    unfolding rd using kp by (intro divide_right_mono) auto
  then have 2: "round_double x \<le> of_int b / 16" by simp
  show ?thesis using 1 2 by simp
qed

text \<open>
  A value just above an integer \<open>n\<close>, by at most \<open>n / 2 ^ 54\<close>, is less than half a unit
  in the last place away from it, and rounds to \<open>n\<close>.
\<close>

lemma round_double_int_near:
  assumes "1 \<le> n" "n < 2 ^ 52" "of_int n \<le> x" "x \<le> of_int n + of_int n / 2 ^ 54"
  shows "round_double x = of_int n"
proof -
  define e where "e = binade x"
  have n1: "(1::rat) \<le> of_int n" using assms(1) by simp
  have xpos: "0 < x" using assms(3) n1 by linarith
  have xn: "x \<noteq> 0" and ax: "\<bar>x\<bar> = x" using xpos by auto
  have eb: "2 powi e \<le> x" "x < 2 powi (e + 1)"
    using binade_bounds [OF xn] unfolding e_def ax by auto
  have "(of_int n :: rat) \<le> of_int (2 ^ 52 - 1)" using assms(2) by (simp only: of_int_le_iff)
  then have n52: "(of_int n :: rat) \<le> 2 ^ 52 - 1" by simp
  have "of_int n / 2 ^ 54 < (1::rat)" using n52 by simp
  then have "x < 2 ^ 52" using assms(4) n52 by linarith
  then have "(2::rat) powi e < 2 powi 52" using eb(1) by simp
  then have e52: "e < 52" by (rule powi2_less_cancel)
  define k where "k = nat (52 - e)"
  have p1: "(2::rat) powi (52 - e) = 2 ^ k"
    unfolding k_def using e52 by (simp add: power_int_def)
  have p2: "(2::rat) powi (e - 52) = 1 / 2 ^ k"
  proof -
    have "e - 52 = - (52 - e)" by simp
    then show ?thesis unfolding p1 [symmetric] by (simp only: power_int_minus_divide)
  qed
  have p3: "(2::rat) powi (e + 1) * 2 ^ k = 2 ^ 53"
  proof -
    have "(2::rat) powi (e + 1) * 2 powi (52 - e) = 2 powi 53"
      by (simp add: power_int_add [symmetric])
    then show ?thesis unfolding p1 by simp
  qed
  define y where "y = x * 2 ^ k"
  have kp: "(0::rat) < 2 ^ k" by simp
  have y0: "0 \<le> y - of_int (n * 2 ^ k)"
    using assms(3) kp unfolding y_def by (simp add: mult_right_mono)
  have "x * 2 ^ k < 2 powi (e + 1) * 2 ^ k" using eb(2) kp by simp
  then have xk: "x * 2 ^ k < 2 ^ 53" unfolding p3 .
  have "y - of_int (n * 2 ^ k) = (x - of_int n) * 2 ^ k" unfolding y_def by (simp add: algebra_simps)
  also have "\<dots> \<le> of_int n / 2 ^ 54 * 2 ^ k"
    using assms(4) kp by (intro mult_right_mono) auto
  also have "\<dots> \<le> x / 2 ^ 54 * 2 ^ k"
    using assms(3) kp by (intro mult_right_mono divide_right_mono) auto
  also have "\<dots> = x * 2 ^ k / 2 ^ 54" by simp
  also have "\<dots> < 2 ^ 53 / 2 ^ 54" using xk by (intro divide_strict_right_mono) auto
  finally have y1: "y - of_int (n * 2 ^ k) < 1 / 2" by simp
  have "\<bar>y - of_int (n * 2 ^ k)\<bar> < 1 / 2" using y0 y1 by simp
  then have r: "round_half_even y = n * 2 ^ k" by (rule rhe_near)
  have "round_double x = of_int (round_half_even y) / 2 ^ k"
    unfolding round_double_def y_def e_def [symmetric] using xn by (simp add: Let_def p1 p2)
  then show ?thesis unfolding r by simp
qed

lemma round_double_of_int:
  assumes "0 \<le> n" "n < 2 ^ 52"
  shows "round_double (of_int n) = of_int n"
proof (cases "n = 0")
  case True
  then show ?thesis by (simp add: round_double_def)
next
  case False
  then have "1 \<le> n" using assms(1) by simp
  moreover have "(of_int n :: rat) \<le> of_int n + of_int n / 2 ^ 54" using assms(1) by simp
  ultimately show ?thesis using assms(2) by (intro round_double_int_near) auto
qed


section \<open>The float expressions of the script in integer arithmetic\<close>

lemma c04: "round_double (4 / 10) = 3602879701896397 / 2 ^ 53"
  by code_simp

lemma c09: "round_double (9 / 10) = 8106479329266893 / 2 ^ 53"
  by code_simp

lemma c11: "round_double (11 / 10) = 4953959590107546 / 2 ^ 52"
  by code_simp

lemma c08: "py_sub (PInt 1) (py_mul (float_lit (10 / 100)) (PInt 2)) = PFloat (7205759403792794 / 2 ^ 53)"
  by code_simp

lemma sandwich_frac:
  assumes "0 \<le> n" "n < 2 ^ 48" "of_int n + 1 / 16 \<le> x" "x \<le> of_int n + 15 / 16"
  shows "of_int n + 1 / 16 \<le> round_double x \<and> round_double x \<le> of_int n + 15 / 16"
proof -
  have n0: "(0::rat) \<le> of_int n" using assms(1) by simp
  have "0 < x" using assms(3) n0 by linarith
  moreover have "of_int (16 * n + 1) / 16 \<le> x" using assms(3) by simp
  moreover have "x \<le> of_int (16 * n + 15) / 16" using assms(4) by simp
  moreover have "16 * n + 15 < 2 ^ 53" using assms(2) by simp
  ultimately have "of_int (16 * n + 1) / 16 \<le> round_double x \<and> round_double x \<le> of_int (16 * n + 15) / 16"
    by (rule round_double_sandwich)
  then show ?thesis by simp
qed

lemma sandwich_floor:
  assumes "0 \<le> n" "n < 2 ^ 48" "of_int n \<le> x" "x \<le> of_int n + 15 / 16"
  shows "of_int n \<le> round_double x \<and> round_double x \<le> of_int n + 15 / 16"
proof (cases "x = 0")
  case True
  then show ?thesis using assms(3,4) by (simp add: round_double_def)
next
  case False
  have n0: "(0::rat) \<le> of_int n" using assms(1) by simp
  have "0 < x" using assms(3) n0 False by linarith
  moreover have "of_int (16 * n) / 16 \<le> x" using assms(3) by simp
  moreover have "x \<le> of_int (16 * n + 15) / 16" using assms(4) by simp
  moreover have "16 * n + 15 < 2 ^ 53" using assms(2) by simp
  ultimately have "of_int (16 * n) / 16 \<le> round_double x \<and> round_double x \<le> of_int (16 * n + 15) / 16"
    by (rule round_double_sandwich)
  then show ?thesis by simp
qed

lemma mul04:
  assumes "1 \<le> w" "w < 2 ^ 31"
  shows "5 dvd w \<Longrightarrow> round_double (of_int w * (3602879701896397 / 2 ^ 53)) = of_int (2 * w div 5)"
    and "\<not> 5 dvd w \<Longrightarrow>
           of_int (2 * w div 5) + 1 / 16 \<le> round_double (of_int w * (3602879701896397 / 2 ^ 53)) \<and>
           round_double (of_int w * (3602879701896397 / 2 ^ 53)) \<le> of_int (2 * w div 5) + 15 / 16"
proof -
  define n where "n = 2 * w div 5"
  define r where "r = 2 * w mod 5"
  define p :: rat where "p = of_int w * (3602879701896397 / 2 ^ 53)"
  have "2 * w = 5 * n + r" unfolding n_def r_def by simp
  then have "(of_int (2 * w) :: rat) = of_int (5 * n + r)" by (simp only:)
  then have eq: "2 * (of_int w :: rat) = 5 * of_int n + of_int r" by simp
  have r0: "0 \<le> r" "r \<le> 4" unfolding r_def by auto
  have w1: "(1::rat) \<le> of_int w" using assms(1) by simp
  have "(of_int w :: rat) < of_int (2 ^ 31)" using assms(2) by (simp only: of_int_less_iff)
  then have w2: "(of_int w :: rat) < 2 ^ 31" by simp
  have nb: "0 \<le> n" "n < 2 ^ 48" using assms unfolding n_def by auto
  show "round_double (of_int w * (3602879701896397 / 2 ^ 53)) = of_int (2 * w div 5)" if "5 dvd w"
  proof -
    have "r = 0" using that unfolding r_def by presburger
    then have e0: "2 * (of_int w :: rat) = 5 * of_int n" using eq by simp
    have "1 \<le> n" using that assms(1) unfolding n_def by presburger
    moreover have "n < 2 ^ 52" using nb(2) by simp
    moreover have "of_int n \<le> p" unfolding p_def using e0 w1 by simp
    moreover have "p \<le> of_int n + of_int n / 2 ^ 54" unfolding p_def using e0 w1 by simp
    ultimately have "round_double p = of_int n" by (rule round_double_int_near)
    then show ?thesis unfolding p_def n_def .
  qed
  show "of_int (2 * w div 5) + 1 / 16 \<le> round_double (of_int w * (3602879701896397 / 2 ^ 53)) \<and>
        round_double (of_int w * (3602879701896397 / 2 ^ 53)) \<le> of_int (2 * w div 5) + 15 / 16"
    if "\<not> 5 dvd w"
  proof -
    have "1 \<le> r" using that unfolding r_def by presburger
    then have r1: "(1::rat) \<le> of_int r" by simp
    have r4: "(of_int r :: rat) \<le> 4" using r0(2) by simp
    have "of_int n + 1 / 16 \<le> p" unfolding p_def using eq r1 w1 by simp
    moreover have "p \<le> of_int n + 15 / 16" unfolding p_def using eq r4 w2 by simp
    ultimately have "of_int n + 1 / 16 \<le> round_double p \<and> round_double p \<le> of_int n + 15 / 16"
      using nb by (intro sandwich_frac) auto
    then show ?thesis unfolding p_def n_def .
  qed
qed

lemma mul11:
  assumes "0 \<le> hc" "hc < 2 ^ 31"
  shows "of_int (11 * hc div 10) \<le> round_double (of_int hc * (4953959590107546 / 2 ^ 52)) \<and>
         round_double (of_int hc * (4953959590107546 / 2 ^ 52)) \<le> of_int (11 * hc div 10) + 15 / 16"
proof -
  define n where "n = 11 * hc div 10"
  define r where "r = 11 * hc mod 10"
  define p :: rat where "p = of_int hc * (4953959590107546 / 2 ^ 52)"
  have "11 * hc = 10 * n + r" unfolding n_def r_def by simp
  then have "(of_int (11 * hc) :: rat) = of_int (10 * n + r)" by (simp only:)
  then have eq: "11 * (of_int hc :: rat) = 10 * of_int n + of_int r" by simp
  have r0: "0 \<le> r" "r \<le> 9" unfolding r_def by auto
  have r1: "(0::rat) \<le> of_int r" using r0(1) by simp
  have r4: "(of_int r :: rat) \<le> 9" using r0(2) by simp
  have w1: "(0::rat) \<le> of_int hc" using assms(1) by simp
  have "(of_int hc :: rat) < of_int (2 ^ 31)" using assms(2) by (simp only: of_int_less_iff)
  then have w2: "(of_int hc :: rat) < 2 ^ 31" by simp
  have nb: "0 \<le> n" "n < 2 ^ 48" using assms unfolding n_def by auto
  have "of_int n \<le> p" unfolding p_def using eq r1 w1 by simp
  moreover have "p \<le> of_int n + 15 / 16" unfolding p_def using eq r4 w2 by simp
  ultimately have "of_int n \<le> round_double p \<and> round_double p \<le> of_int n + 15 / 16"
    using nb by (intro sandwich_floor) auto
  then show ?thesis unfolding p_def n_def .
qed

lemma floor_between:
  assumes "of_int n \<le> x" "x \<le> of_int n + 15 / 16"
  shows "\<lfloor>x :: rat\<rfloor> = n"
  using assms by (intro floor_unique) auto


lemma floor_half_between:
  assumes "of_int n \<le> x" "x \<le> of_int n + 15 / 16"
  shows "\<lfloor>x / 2 :: rat\<rfloor> = n div 2"
proof (rule floor_unique)
  have "2 * (n div 2) \<le> n" by simp
  then have "(of_int (2 * (n div 2)) :: rat) \<le> of_int n" by (simp only: of_int_le_iff)
  then show "of_int (n div 2) \<le> x / 2" using assms(1) by simp
  have "n \<le> 2 * (n div 2) + 1" by presburger
  then have "(of_int n :: rat) \<le> of_int (2 * (n div 2) + 1)" by (simp only: of_int_le_iff)
  then show "x / 2 < of_int (n div 2) + 1" using assms(2) by simp
qed


lemma half_crop_eq:
  assumes "valid_size w h"
  shows "py_int (py_floordiv2 (py_min (PInt h) (py_mul (PInt w) (float_lit (4 / 10))))) =
         (if 2 * w < 5 * h then w div 5 else h div 2)"
proof -
  have w: "1 \<le> w" "w < 2 ^ 31" and h: "1 \<le> h" using assms by (auto simp: valid_size_def)
  define n where "n = 2 * w div 5"
  define x where "x = round_double (of_int w * (3602879701896397 / 2 ^ 53))"
  have fw: "round_double (of_int w) = of_int w" using w by (intro round_double_of_int) auto
  have mul: "py_mul (PInt w) (float_lit (4 / 10)) = PFloat x"
    unfolding x_def float_lit_def c04 by (simp add: fw)
  have n0: "0 \<le> n" using w unfolding n_def by simp
  have bx: "of_int n \<le> x \<and> x \<le> of_int n + 15 / 16 \<and> (5 dvd w \<longrightarrow> x = of_int n) \<and>
            (\<not> 5 dvd w \<longrightarrow> of_int n + 1 / 16 \<le> x)"
    using mul04 [OF w] unfolding x_def n_def by (cases "5 dvd w") auto
  have cmp: "x < of_int h \<longleftrightarrow> 2 * w < 5 * h"
  proof (cases "5 dvd w")
    case True
    then have "x = of_int n" using bx by simp
    then have "x < of_int h \<longleftrightarrow> n < h" by simp
    also have "\<dots> \<longleftrightarrow> 2 * w < 5 * h" unfolding n_def by presburger
    finally show ?thesis .
  next
    case False
    then have b: "of_int n + 1 / 16 \<le> x" "x \<le> of_int n + 15 / 16" using bx by auto
    have "x < of_int h \<longleftrightarrow> n < h"
    proof
      assume "x < of_int h"
      then have "(of_int n :: rat) < of_int h" using b(1) by linarith
      then show "n < h" by (simp only: of_int_less_iff)
    next
      assume "n < h"
      then have "n + 1 \<le> h" by simp
      then have "(of_int (n + 1) :: rat) \<le> of_int h" by (simp only: of_int_le_iff)
      then show "x < of_int h" using b(2) by simp
    qed
    also have "\<dots> \<longleftrightarrow> 2 * w < 5 * h" unfolding n_def by presburger
    finally show ?thesis .
  qed
  show ?thesis
  proof (cases "2 * w < 5 * h")
    case True
    then have "py_min (PInt h) (PFloat x) = PFloat x" using cmp by (simp add: py_min_def)
    moreover have fl: "\<lfloor>x / 2\<rfloor> = n div 2" using bx by (intro floor_half_between) auto
    moreover have "0 \<le> n div 2" "n div 2 < 2 ^ 52" using n0 w unfolding n_def by auto
    then have "round_double (of_int (n div 2)) = of_int (n div 2)" by (rule round_double_of_int)
    moreover have "n div 2 = w div 5" unfolding n_def by presburger
    moreover have "0 \<le> w div 5" using w by simp
    ultimately show ?thesis using True unfolding mul by simp
  next
    case False
    then have "py_min (PInt h) (PFloat x) = PInt h" using cmp by (simp add: py_min_def)
    then show ?thesis using False unfolding mul by simp
  qed
qed

lemma tens:
  fixes hc :: int
  defines "k \<equiv> hc div 10" and "r \<equiv> hc mod 10"
  shows "hc = 10 * k + r" and "0 \<le> r" and "r \<le> 9"
    and "10 dvd hc \<Longrightarrow> r = 0"
    and "\<not> 10 dvd hc \<Longrightarrow> 1 \<le> r"
proof -
  show "hc = 10 * k + r" unfolding k_def r_def by simp
  show r0: "0 \<le> r" and "r \<le> 9" unfolding r_def by simp_all
  show "r = 0" if "10 dvd hc" using that unfolding r_def by simp
  show "1 \<le> r" if "\<not> 10 dvd hc"
  proof -
    have "r \<noteq> 0" using that unfolding r_def by (simp add: dvd_eq_mod_eq_0)
    then show ?thesis using r0 by linarith
  qed
qed

lemma mul09_exact:
  assumes "0 \<le> hc" "hc < 2 ^ 31" "10 dvd hc"
  shows "round_double (of_int hc * (8106479329266893 / 2 ^ 53)) = of_int (hc - hc div 10)"
proof (cases "hc = 0")
  case True
  then show ?thesis by (simp add: round_double_def)
next
  case False
  define k where "k = hc div 10"
  define n where "n = hc - k"
  define p :: rat where "p = of_int hc * (8106479329266893 / 2 ^ 53)"
  have h: "hc = 10 * k" using tens(1) [of hc] tens(4) [OF assms(3)] unfolding k_def by simp
  have n9: "n = 9 * k" unfolding n_def h by simp
  have kp: "1 \<le> k" using False assms(1) h by linarith
  have kb: "k < 2 ^ 31" using assms(2) kp h by simp
  have kr: "(1::rat) \<le> of_int k" using kp by simp
  have "1 \<le> n" unfolding n9 using kp by simp
  moreover have "n < 2 ^ 52" unfolding n9 using kb by simp
  moreover have "of_int n \<le> p" unfolding p_def n9 h using kr by simp
  moreover have "p \<le> of_int n + of_int n / 2 ^ 54" unfolding p_def n9 h using kr by simp
  ultimately have "round_double p = of_int n" by (rule round_double_int_near)
  then show ?thesis unfolding p_def n_def k_def .
qed

lemma mul09_inexact:
  assumes "0 \<le> hc" "hc < 2 ^ 31" "\<not> 10 dvd hc"
  shows "of_int (hc - hc div 10 - 1) + 1 / 16 \<le> round_double (of_int hc * (8106479329266893 / 2 ^ 53)) \<and>
         round_double (of_int hc * (8106479329266893 / 2 ^ 53)) \<le> of_int (hc - hc div 10 - 1) + 15 / 16"
proof -
  define k where "k = hc div 10"
  define r where "r = hc mod 10"
  define n where "n = hc - k - 1"
  define p :: rat where "p = of_int hc * (8106479329266893 / 2 ^ 53)"
  have h: "hc = 10 * k + r" and r9: "r \<le> 9" and r1: "1 \<le> r"
    using tens(1,3) [of hc] tens(5) [OF assms(3)] unfolding k_def r_def by simp_all
  have k0: "0 \<le> k" using assms(1) unfolding k_def by simp
  have n9: "n = 9 * k + r - 1" unfolding n_def using h by simp
  have n0: "0 \<le> n" unfolding n9 using k0 r1 by simp
  have "n \<le> hc" unfolding n_def using k0 by simp
  then have n1: "n < 2 ^ 48" using assms(2) by simp
  have kr: "(0::rat) \<le> of_int k" using k0 by simp
  have rr1: "(1::rat) \<le> of_int r" using r1 by simp
  have "(of_int r :: rat) \<le> of_int 9" using r9 by (simp only: of_int_le_iff)
  then have rr9: "(of_int r :: rat) \<le> 9" by simp
  have "(of_int k :: rat) < of_int (2 ^ 31)" using h r1 assms(2) by (simp only: of_int_less_iff) simp
  then have kb: "(of_int k :: rat) < 2 ^ 31" by simp
  have lo: "of_int n + 1 / 16 \<le> p" unfolding p_def n9 h using kr rr9 by simp
  have hi: "p \<le> of_int n + 15 / 16" unfolding p_def n9 h using kb rr1 rr9 by simp
  have "of_int n + 1 / 16 \<le> round_double p \<and> round_double p \<le> of_int n + 15 / 16"
    using n0 n1 lo hi by (rule sandwich_frac)
  then show ?thesis unfolding p_def n_def k_def .
qed

lemma top_eq:
  assumes "0 \<le> hc" "hc \<le> cy" "cy < 2 ^ 31"
  shows "py_int (py_sub (PInt cy) (py_mul (PInt hc) (float_lit (9 / 10)))) = cy - hc + hc div 10"
proof -
  define k where "k = hc div 10"
  define v where "v = round_double (of_int hc * (8106479329266893 / 2 ^ 53))"
  define m where "m = cy - hc + k"
  have hc: "hc < 2 ^ 31" and cy0: "0 \<le> cy" using assms by simp_all
  have k0: "0 \<le> k" and kh: "k \<le> hc" using assms(1) unfolding k_def by simp_all
  have m0: "0 \<le> m" unfolding m_def using k0 assms(2) by simp
  have "m \<le> cy" unfolding m_def using kh by simp
  then have m1: "m < 2 ^ 48" using assms(3) by simp
  have fh: "round_double (of_int hc) = of_int hc" using assms(1) hc by (intro round_double_of_int) simp_all
  have fc: "round_double (of_int cy) = of_int cy" using cy0 assms(3) by (intro round_double_of_int) simp_all
  have expr: "py_sub (PInt cy) (py_mul (PInt hc) (float_lit (9 / 10))) = PFloat (round_double (of_int cy - v))"
    unfolding v_def float_lit_def c09 by (simp add: fh fc)
  have s: "of_int m \<le> round_double (of_int cy - v) \<and> round_double (of_int cy - v) \<le> of_int m + 15 / 16"
  proof (cases "10 dvd hc")
    case True
    have "v = of_int (hc - k)" unfolding v_def k_def using assms(1) hc True by (rule mul09_exact)
    then have "of_int cy - v = of_int m" unfolding m_def by simp
    moreover have "round_double (of_int m) = of_int m" using m0 m1 by (intro round_double_of_int) simp_all
    ultimately show ?thesis by simp
  next
    case False
    have "of_int (hc - k - 1) + 1 / 16 \<le> v \<and> v \<le> of_int (hc - k - 1) + 15 / 16"
      unfolding v_def k_def using assms(1) hc False by (rule mul09_inexact)
    then have "of_int m + 1 / 16 \<le> of_int cy - v" "of_int cy - v \<le> of_int m + 15 / 16"
      unfolding m_def by simp_all
    with m0 m1 have "of_int m + 1 / 16 \<le> round_double (of_int cy - v) \<and>
               round_double (of_int cy - v) \<le> of_int m + 15 / 16"
      by (rule sandwich_frac)
    then show ?thesis by simp
  qed
  then have "\<lfloor>round_double (of_int cy - v)\<rfloor> = m" by (intro floor_between) simp_all
  moreover have "(0::rat) \<le> of_int m" using m0 by simp
  then have "0 \<le> round_double (of_int cy - v)" using s by linarith
  ultimately show ?thesis unfolding expr m_def k_def by simp
qed

lemma bottom_eq:
  assumes "0 \<le> hc" "hc < 2 ^ 31" "0 \<le> cy" "cy < 2 ^ 31"
  shows "py_int (py_add (PInt cy) (py_mul (PInt hc) (float_lit (11 / 10)))) = cy + hc + hc div 10"
proof -
  define n where "n = 11 * hc div 10"
  define v where "v = round_double (of_int hc * (4953959590107546 / 2 ^ 52))"
  have "11 * hc = hc + hc * 10" by simp
  then have "n = (hc + hc * 10) div 10" unfolding n_def by (simp only:)
  then have nk: "n = hc + hc div 10" by simp
  have fh: "round_double (of_int hc) = of_int hc" using assms by (intro round_double_of_int) simp_all
  have fc: "round_double (of_int cy) = of_int cy" using assms by (intro round_double_of_int) simp_all
  have expr: "py_add (PInt cy) (py_mul (PInt hc) (float_lit (11 / 10))) = PFloat (round_double (of_int cy + v))"
    unfolding v_def float_lit_def c11 by (simp add: fh fc)
  have b: "of_int n \<le> v" "v \<le> of_int n + 15 / 16"
    unfolding v_def n_def using mul11 [OF assms(1,2)] by simp_all
  define m where "m = cy + n"
  have k0: "0 \<le> hc div 10" "hc div 10 \<le> hc" using assms(1) by simp_all
  have m0: "0 \<le> m" unfolding m_def nk using assms(1,3) k0 by simp
  have m1: "m < 2 ^ 48" unfolding m_def nk using assms(2,4) k0 by simp
  have "of_int m \<le> of_int cy + v" "of_int cy + v \<le> of_int m + 15 / 16"
    using b unfolding m_def by simp_all
  with m0 m1 have s: "of_int m \<le> round_double (of_int cy + v) \<and>
             round_double (of_int cy + v) \<le> of_int m + 15 / 16"
    by (intro sandwich_floor) simp_all
  then have "\<lfloor>round_double (of_int cy + v)\<rfloor> = m"
    by (intro floor_between) simp_all
  moreover have "(0::rat) \<le> of_int m" using m0 by simp
  then have "0 \<le> round_double (of_int cy + v)" using s by linarith
  ultimately show ?thesis unfolding expr m_def nk by simp
qed

lemma initial_box_eq:
  assumes "valid_size w h"
  shows "initial_box w h =
         (let hc = (if 2 * w < 5 * h then w div 5 else h div 2)
          in (w div 2 - hc, h div 2 - hc + hc div 10, w div 2 + hc, h div 2 + hc + hc div 10))"
proof -
  define hc where "hc = (if 2 * w < 5 * h then w div 5 else h div 2)"
  have v: "1 \<le> w" "w < 2 ^ 31" "1 \<le> h" "h < 2 ^ 31" using assms by (simp_all add: valid_size_def)
  have h0: "0 \<le> hc" using v unfolding hc_def by (simp add: pos_imp_zdiv_nonneg_iff)
  have h1: "hc \<le> h div 2"
  proof (cases "2 * w < 5 * h")
    case True
    then have "w div 5 \<le> h div 2" by linarith
    then show ?thesis unfolding hc_def using True by simp
  next
    case False
    then show ?thesis unfolding hc_def by simp
  qed
  have h2: "0 \<le> h div 2" "h div 2 < 2 ^ 31" using v by simp_all
  have h3: "hc < 2 ^ 31" using h1 h2 by linarith
  have hc: "py_int (py_floordiv2 (py_min (PInt h) (py_mul (PInt w) (float_lit (4 / 10))))) = hc"
    unfolding hc_def by (rule half_crop_eq [OF assms])
  have t: "py_int (py_sub (PInt (h div 2)) (py_mul (PInt hc) (float_lit (9 / 10)))) = h div 2 - hc + hc div 10"
    using h0 h1 h2(2) by (rule top_eq)
  have b: "py_int (py_add (PInt (h div 2)) (py_mul (PInt hc) (float_lit (11 / 10)))) = h div 2 + hc + hc div 10"
    using h0 h3 h2 by (rule bottom_eq)
  show ?thesis
    unfolding initial_box_def Let_def hc t b hc_def [symmetric] by simp
qed

section \<open>The crop box in integer arithmetic\<close>

lemma half_crop_int:
  assumes "valid_size w h"
  shows "half_crop w h = (if 2 * w < 5 * h then w div 5 else h div 2)"
  unfolding half_crop_def Let_def by (rule half_crop_eq [OF assms])

lemma half_crop_bounds:
  assumes "valid_size w h"
  shows "0 \<le> half_crop w h" and "half_crop w h \<le> w div 5" and "half_crop w h \<le> h div 2"
proof -
  have v: "1 \<le> w" "1 \<le> h" using assms by (simp_all add: valid_size_def)
  show "0 \<le> half_crop w h" using v unfolding half_crop_int [OF assms] by (simp add: pos_imp_zdiv_nonneg_iff)
  show "half_crop w h \<le> w div 5"
  proof (cases "2 * w < 5 * h")
    case True
    then show ?thesis unfolding half_crop_int [OF assms] by simp
  next
    case False
    then have "h div 2 \<le> w div 5" by linarith
    then show ?thesis using False unfolding half_crop_int [OF assms] by simp
  qed
  show "half_crop w h \<le> h div 2"
  proof (cases "2 * w < 5 * h")
    case True
    then have "w div 5 \<le> h div 2" by linarith
    then show ?thesis using True unfolding half_crop_int [OF assms] by simp
  next
    case False
    then show ?thesis unfolding half_crop_int [OF assms] by simp
  qed
qed

lemma initial_box_int:
  assumes "valid_size w h"
  shows "initial_box w h =
         (w div 2 - half_crop w h, h div 2 - half_crop w h + half_crop w h div 10,
          w div 2 + half_crop w h, h div 2 + half_crop w h + half_crop w h div 10)"
  using initial_box_eq [OF assms] unfolding half_crop_int [OF assms] Let_def .

lemma initial_box_square:
  assumes "valid_size w h"
  shows "box_width (initial_box w h) = box_height (initial_box w h)"
  unfolding initial_box_int [OF assms] box_width_def box_height_def by simp

lemma make_square_initial_box:
  assumes "valid_size w h"
  shows "make_square (initial_box w h) = initial_box w h"
  unfolding initial_box_int [OF assms] make_square_def by (simp add: Let_def)

lemma make_square_initial_box_int:
  assumes "valid_size w h"
  shows "make_square (initial_box w h) =
         (w div 2 - half_crop w h, h div 2 - half_crop w h + half_crop w h div 10,
          w div 2 + half_crop w h, h div 2 + half_crop w h + half_crop w h div 10)"
  using make_square_initial_box [OF assms] initial_box_int [OF assms] by (simp only:)

lemma crop_box_int:
  assumes "valid_size w h"
  shows "crop_box w h =
         (w div 2 - half_crop w h, h div 2 - half_crop w h + half_crop w h div 10,
          w div 2 + half_crop w h, min h (h div 2 + half_crop w h + half_crop w h div 10))"
proof -
  define hc where "hc = half_crop w h"
  have v: "1 \<le> w" "1 \<le> h" using assms by (simp_all add: valid_size_def)
  have b: "0 \<le> hc" "hc \<le> w div 5" "hc \<le> h div 2"
    unfolding hc_def using half_crop_bounds [OF assms] by simp_all
  have k: "0 \<le> hc div 10" using b(1) by (simp add: pos_imp_zdiv_nonneg_iff)
  have l: "0 \<le> w div 2 - hc" using b(2) v(1) by linarith
  have t: "0 \<le> h div 2 - hc + hc div 10" using b(3) k by linarith
  have r: "w div 2 + hc \<le> w" using b(2) v(1) by linarith
  show ?thesis
    unfolding crop_box_def make_square_initial_box_int [OF assms] clamp_box_def hc_def [symmetric]
    using l t r by (simp add: max_def min_def)
qed

lemma crop_box_bounds:
  assumes "valid_size w h"
  shows "case crop_box w h of (left, top', right, bottom) \<Rightarrow>
           0 \<le> left \<and> left \<le> right \<and> right \<le> w \<and> 0 \<le> top' \<and> top' \<le> bottom \<and> bottom \<le> h"
proof -
  define hc where "hc = half_crop w h"
  have v: "1 \<le> w" "1 \<le> h" using assms by (simp_all add: valid_size_def)
  have b: "0 \<le> hc" "hc \<le> w div 5" "hc \<le> h div 2"
    unfolding hc_def using half_crop_bounds [OF assms] by simp_all
  have k: "0 \<le> hc div 10" "hc div 10 \<le> hc" using b(1) by (simp_all add: pos_imp_zdiv_nonneg_iff)
  have l: "0 \<le> w div 2 - hc" using b(2) v(1) by linarith
  have t: "0 \<le> h div 2 - hc + hc div 10" using b(3) k by linarith
  have r: "w div 2 + hc \<le> w" using b(2) v(1) by linarith
  have t2: "h div 2 - hc + hc div 10 \<le> h" using k v(2) by linarith
  show ?thesis
    unfolding crop_box_int [OF assms] hc_def [symmetric]
    using l t r t2 b(1) k by (simp add: min_def)
qed

lemma crop_box_exceeds:
  assumes "valid_size w h" "exceeds w h (make_square (initial_box w h))"
  shows "0 < box_width (crop_box w h) \<and> 0 < box_height (crop_box w h)"
proof -
  define hc where "hc = half_crop w h"
  have v: "1 \<le> w" "1 \<le> h" using assms by (simp_all add: valid_size_def)
  have b: "0 \<le> hc" "hc \<le> w div 5" "hc \<le> h div 2"
    unfolding hc_def using half_crop_bounds [OF assms(1)] by simp_all
  have k: "0 \<le> hc div 10" "hc div 10 \<le> hc" using b(1) by (simp_all add: pos_imp_zdiv_nonneg_iff)
  have l: "0 \<le> w div 2 - hc" using b(2) v(1) by linarith
  have t: "0 \<le> h div 2 - hc + hc div 10" using b(3) k by linarith
  have r: "w div 2 + hc \<le> w" using b(2) v(1) by linarith
  have "exceeds w h (w div 2 - hc, h div 2 - hc + hc div 10, w div 2 + hc, h div 2 + hc + hc div 10)"
    using assms(2) unfolding make_square_initial_box_int [OF assms(1)] hc_def .
  then have e: "h < h div 2 + hc + hc div 10" using l t r by (simp add: exceeds_def)
  have h1: "0 < hc"
  proof (rule ccontr)
    assume "\<not> 0 < hc"
    then have "hc = 0" using b(1) by simp
    then show False using e v(2) by simp
  qed
  have t2: "h div 2 - hc + hc div 10 < h" using k v(2) by linarith
  show ?thesis
    unfolding crop_box_int [OF assms(1)] hc_def [symmetric] box_width_def box_height_def
    using h1 t2 e by (simp add: min_def)
qed

section \<open>The square-forcing step\<close>

text \<open>
  Claim C4. For every initial crop box, that is the box computed from the size of a
  source image, the region after the square-forcing step (and before the clamping to
  the bounds) is square: \<open>right - left\<close> equals \<open>bottom - top\<close>.
\<close>

theorem square_forcing_of_initial_box:
  assumes "valid_size w h"
  shows "box_width (make_square (initial_box w h)) = box_height (make_square (initial_box w h))"
  unfolding make_square_initial_box [OF assms] by (rule initial_box_square [OF assms])

theorem square_forcing_of_initial_box_witness:
  "valid_size 800 400 \<and>
   box_width (make_square (initial_box 800 400)) = box_height (make_square (initial_box 800 400))"
  using square_forcing_of_initial_box [of 800 400] by (simp add: valid_size_def)

text \<open>
  The step alone, on an arbitrary box: it ends with a square when the two sides differ
  by an even number. The initial box of an image is square already, so that the step
  leaves it as it is (\<open>make_square_initial_box\<close>).
\<close>

lemma make_square_even_diff:
  "even (box_height bx - box_width bx) \<Longrightarrow>
   box_width (make_square bx) = box_height (make_square bx)"
proof -
  assume ev: "even (box_height bx - box_width bx)"
  obtain l t r b where bx: "bx = (l, t, r, b)" by (cases bx) auto
  have e1: "even ((b - t) - (r - l))" using ev by (simp add: bx box_width_def box_height_def)
  then have e2: "even ((r - l) - (b - t))" by presburger
  have d1: "2 * (((b - t) - (r - l)) div 2) = (b - t) - (r - l)" using e1 by presburger
  have d2: "2 * (((r - l) - (b - t)) div 2) = (r - l) - (b - t)" using e2 by presburger
  show ?thesis
    using d1 d2 by (simp add: bx make_square_def box_width_def box_height_def Let_def)
qed

section \<open>The clamped crop box\<close>

lemma crop_ok:
  assumes "valid_size (width im) (height im)"
  shows "\<exists>cropped. crop im (crop_box (width im) (height im)) = Inr cropped \<and>
           mode cropped = mode im \<and>
           width cropped = box_width (crop_box (width im) (height im)) \<and>
           height cropped = box_height (crop_box (width im) (height im))"
proof -
  obtain l t r b where bx: "crop_box (width im) (height im) = (l, t, r, b)"
    by (cases "crop_box (width im) (height im)") auto
  have "l \<le> r" "t \<le> b" using crop_box_bounds [OF assms] unfolding bx by simp_all
  then show ?thesis unfolding bx by (simp add: crop_def box_width_def box_height_def)
qed

text \<open>
  Claim C9. For every source image with width and height at least 1, the clamped crop
  box satisfies \<open>0 \<le> left \<le> right \<le> width\<close> and \<open>0 \<le> top \<le> bottom \<le> height\<close>, so
  that \<open>crop\<close> is applied to a region inside the image and does not raise.
\<close>

theorem crop_box_within_image:
  assumes "valid_size (width im) (height im)"
  shows "(case crop_box (width im) (height im) of (left, top', right, bottom) \<Rightarrow>
            0 \<le> left \<and> left \<le> right \<and> right \<le> width im \<and>
            0 \<le> top' \<and> top' \<le> bottom \<and> bottom \<le> height im) \<and>
         (\<exists>cropped. crop im (crop_box (width im) (height im)) = Inr cropped)"
  using crop_box_bounds [OF assms] crop_ok [OF assms] by blast

theorem crop_box_within_image_witness:
  "valid_size (width (new_image RGBA (800, 400) [0, 0, 0, 0]))
              (height (new_image RGBA (800, 400) [0, 0, 0, 0])) \<and>
   (case crop_box (width (new_image RGBA (800, 400) [0, 0, 0, 0]))
                  (height (new_image RGBA (800, 400) [0, 0, 0, 0])) of
      (left, top', right, bottom) \<Rightarrow>
        0 \<le> left \<and> left \<le> right \<and> right \<le> width (new_image RGBA (800, 400) [0, 0, 0, 0]) \<and>
        0 \<le> top' \<and> top' \<le> bottom \<and> bottom \<le> height (new_image RGBA (800, 400) [0, 0, 0, 0])) \<and>
   (\<exists>cropped. crop (new_image RGBA (800, 400) [0, 0, 0, 0])
                 (crop_box (width (new_image RGBA (800, 400) [0, 0, 0, 0]))
                           (height (new_image RGBA (800, 400) [0, 0, 0, 0]))) = Inr cropped)"
  using crop_box_within_image [of "new_image RGBA (800, 400) [0, 0, 0, 0]"]
  by (simp add: new_image_def valid_size_def)

text \<open>
  Claim C5. For every source image with positive width and height: if the computed
  crop region reaches outside the image, the clamped region has positive width and
  positive height.
\<close>

theorem clamped_crop_box_not_empty:
  assumes "valid_size w h" and "exceeds w h (make_square (initial_box w h))"
  shows "0 < box_width (crop_box w h) \<and> 0 < box_height (crop_box w h)"
  using assms by (rule crop_box_exceeds)

theorem clamped_crop_box_not_empty_witness:
  "valid_size 100 20 \<and> exceeds 100 20 (make_square (initial_box 100 20)) \<and>
   0 < box_width (crop_box 100 20) \<and> 0 < box_height (crop_box 100 20)"
proof -
  have v: "valid_size 100 20" by (simp add: valid_size_def)
  have e: "exceeds 100 20 (make_square (initial_box 100 20))"
    unfolding make_square_initial_box_int [OF v] half_crop_int [OF v] by (simp add: exceeds_def)
  show ?thesis using v e clamped_crop_box_not_empty [OF v e] by simp
qed

section \<open>The 800 x 400 scenario\<close>

lemma box_800_400:
  "initial_box 800 400 = (240, 56, 560, 376)"
  "make_square (initial_box 800 400) = (240, 56, 560, 376)"
  "crop_box 800 400 = (240, 56, 560, 376)"
proof -
  have v: "valid_size 800 400" by (simp add: valid_size_def)
  show "initial_box 800 400 = (240, 56, 560, 376)"
    unfolding initial_box_int [OF v] half_crop_int [OF v] by simp
  show "make_square (initial_box 800 400) = (240, 56, 560, 376)"
    unfolding make_square_initial_box_int [OF v] half_crop_int [OF v] by simp
  show "crop_box 800 400 = (240, 56, 560, 376)"
    unfolding crop_box_int [OF v] half_crop_int [OF v] by simp
qed

lemma pad_square_size:
  "mode (pad_square lib cropped) = RGBA"
  "width (pad_square lib cropped) = max (width cropped) (height cropped)"
  "height (pad_square lib cropped) = max (width cropped) (height cropped)"
  by (simp_all add: pad_square_def paste_def new_image_def Let_def)

text \<open>
  Claim C6. For an 800 x 400 source the initial crop region is the 320 x 320 box
  \<open>(240, 56, 560, 376)\<close> around the centre \<open>(400, 200)\<close> of the image (in the middle
  horizontally, 16 pixels lower vertically); the square-forcing step and the clamping
  leave it as it is, a square of edge \<open>320 \<le> min 800 400\<close>; the working square has
  that edge.
\<close>

theorem working_square_800_400:
  assumes "width original = 800" and "height original = 400"
  shows "initial_box (width original) (height original) = (240, 56, 560, 376) \<and>
         box_width (initial_box (width original) (height original)) = 320 \<and>
         box_height (initial_box (width original) (height original)) = 320 \<and>
         make_square (initial_box (width original) (height original)) = (240, 56, 560, 376) \<and>
         crop_box (width original) (height original) = (240, 56, 560, 376) \<and>
         box_width (crop_box (width original) (height original)) \<le> min (width original) (height original) \<and>
         (\<exists>cropped. crop original (crop_box (width original) (height original)) = Inr cropped \<and>
            width cropped = 320 \<and> height cropped = 320 \<and>
            width (pad_square lib cropped) = box_width (crop_box (width original) (height original)) \<and>
            height (pad_square lib cropped) = box_width (crop_box (width original) (height original)))"
  unfolding assms using box_800_400
  by (simp add: box_width_def box_height_def crop_def pad_square_size)

theorem working_square_800_400_witness:
  "width (new_image RGBA (800, 400) [0, 0, 0, 0]) = 800 \<and>
   height (new_image RGBA (800, 400) [0, 0, 0, 0]) = 400 \<and>
   (\<exists>cropped. crop (new_image RGBA (800, 400) [0, 0, 0, 0])
                 (crop_box (width (new_image RGBA (800, 400) [0, 0, 0, 0]))
                           (height (new_image RGBA (800, 400) [0, 0, 0, 0]))) = Inr cropped \<and>
      width cropped = 320 \<and> height cropped = 320)"
proof -
  have a: "width (new_image RGBA (800, 400) [0, 0, 0, 0]) = 800"
    "height (new_image RGBA (800, 400) [0, 0, 0, 0]) = 400"
    by (simp_all add: new_image_def)
  from working_square_800_400 [OF a] show ?thesis using a by blast
qed

section \<open>The size and the place of the logo in an icon\<close>

lemma logo_sizes: "map logo_size [72, 96, 128, 144, 152, 192, 384, 512] = [57, 76, 102, 115, 121, 153, 307, 409]"
  by code_simp

lemma logo_floor: "map (\<lambda>s. \<lfloor>of_int s * (8 / 10 :: rat)\<rfloor>) [72, 96, 128, 144, 152, 192, 384, 512] = [57, 76, 102, 115, 121, 153, 307, 409]"
  by code_simp


text \<open>
  Claim C10. For every size \<open>s\<close> of the configured list the logo edge is
  \<open>floor (s * 0.8)\<close>, it is at least 1 and less than \<open>s\<close>, and the offset
  \<open>(s - logo edge) // 2\<close> is not negative, so that the logo, pasted at the offset,
  lies within the \<open>s \<times> s\<close> icon.
\<close>

theorem logo_within_icon:
  "\<forall>s\<in>set ICON_SIZES.
     logo_size s = \<lfloor>of_int s * (8 / 10 :: rat)\<rfloor> \<and> 1 \<le> logo_size s \<and> logo_size s < s \<and>
     0 \<le> offset s \<and> offset s + logo_size s \<le> s"
proof -
  show ?thesis using logo_sizes logo_floor by (simp add: ICON_SIZES_def offset_def)
qed

theorem logo_within_icon_witness:
  "72 \<in> set ICON_SIZES \<and> logo_size 72 = \<lfloor>of_int 72 * (8 / 10 :: rat)\<rfloor> \<and>
   1 \<le> logo_size 72 \<and> logo_size 72 < 72 \<and> 0 \<le> offset 72 \<and> offset 72 + logo_size 72 \<le> 72"
  using logo_within_icon by (simp add: ICON_SIZES_def)

section \<open>The working square\<close>

text \<open>
  Claim C3. For every cropped image the padding step gives a square \<open>RGBA\<close> image whose
  edge is the larger of the two sides of the cropped image. The cropped image is
  pasted in the middle (the margins before and after it differ by at most one pixel),
  and around it the canvas is transparent: every pixel is \<open>[0, 0, 0, 0]\<close>.
\<close>

theorem pad_square_centred:
  "mode (pad_square lib cropped) = RGBA \<and>
   width (pad_square lib cropped) = max (width cropped) (height cropped) \<and>
   height (pad_square lib cropped) = max (width cropped) (height cropped) \<and>
   (let max_dim = max (width cropped) (height cropped);
        paste_x = (max_dim - width cropped) div 2;
        paste_y = (max_dim - height cropped) div 2
    in 0 \<le> paste_x \<and> paste_x \<le> max_dim - width cropped - paste_x \<and>
       max_dim - width cropped - paste_x \<le> paste_x + 1 \<and>
       0 \<le> paste_y \<and> paste_y \<le> max_dim - height cropped - paste_y \<and>
       max_dim - height cropped - paste_y \<le> paste_y + 1 \<and>
       getpixel (pad_square lib cropped) (x, y) =
         (if paste_x \<le> x \<and> x < paste_x + width cropped \<and> paste_y \<le> y \<and> y < paste_y + height cropped
          then map2 (blend lib (alpha (getpixel cropped (x - paste_x, y - paste_y))))
                    [0, 0, 0, 0] (getpixel cropped (x - paste_x, y - paste_y))
          else [0, 0, 0, 0]))"
proof -
  define m where "m = max (width cropped) (height cropped)"
  define px where "px = (m - width cropped) div 2"
  define py where "py = (m - height cropped) div 2"
  have mw: "0 \<le> m - width cropped" and mh: "0 \<le> m - height cropped" unfolding m_def by simp_all
  have x0: "0 \<le> px" "px \<le> m - width cropped - px" "m - width cropped - px \<le> px + 1"
    unfolding px_def using mw by linarith+
  have y0: "0 \<le> py" "py \<le> m - height cropped - py" "m - height cropped - py \<le> py + 1"
    unfolding py_def using mh by linarith+
  have xin: "px \<le> x \<and> x < px + width cropped \<Longrightarrow> 0 \<le> x \<and> x < m" using x0 by linarith
  have yin: "py \<le> y \<and> y < py + height cropped \<Longrightarrow> 0 \<le> y \<and> y < m" using y0 by linarith
  have px: "getpixel (pad_square lib cropped) (x, y) =
         (if px \<le> x \<and> x < px + width cropped \<and> py \<le> y \<and> y < py + height cropped
          then map2 (blend lib (alpha (getpixel cropped (x - px, y - py))))
                    [0, 0, 0, 0] (getpixel cropped (x - px, y - py))
          else [0, 0, 0, 0])"
    using xin yin
    unfolding pad_square_def Let_def m_def [symmetric] px_def [symmetric] py_def [symmetric]
    by (auto simp add: paste_def new_image_def inside_def Let_def)
  show ?thesis
    unfolding Let_def m_def [symmetric] px_def [symmetric] py_def [symmetric]
    using x0 y0 px by (simp add: pad_square_size m_def)
qed

section \<open>The icons and their files\<close>

lemma make_icon_ok:
  assumes "1 \<le> logo_size sz"
  shows "\<exists>icon_rgb. make_icon lib square sz = Inr icon_rgb \<and>
           mode icon_rgb = RGB \<and> width icon_rgb = sz \<and> height icon_rgb = sz"
  using assms by (simp add: make_icon_def resize_def paste_def new_image_def Let_def)

lemma output_path_eq:
  "output_path sz = ''image/icon-'' @ py_str sz @ ''x'' @ py_str sz @ ''.png''"
  by (simp add: output_path_def path_join_def OUTPUT_DIR_def)

lemma output_path_not_source: "output_path sz \<noteq> SOURCE_LOGO"
  by (simp add: output_path_eq SOURCE_LOGO_def)

lemma output_paths:
  "map output_path [72, 96, 128, 144, 152, 192, 384, 512] =
     [''image/icon-72x72.png'', ''image/icon-96x96.png'', ''image/icon-128x128.png'',
      ''image/icon-144x144.png'', ''image/icon-152x152.png'', ''image/icon-192x192.png'',
      ''image/icon-384x384.png'', ''image/icon-512x512.png'']"
  by code_simp

lemma output_paths_distinct: "distinct (map output_path ICON_SIZES)"
  unfolding ICON_SIZES_def output_paths by simp

lemma save_icons_other:
  "p \<notin> output_path ` set sizes \<Longrightarrow> fst (save_icons lib square sizes fs) p = fs p"
proof (induction sizes arbitrary: fs)
  case Nil
  then show ?case by simp
next
  case (Cons sz sizes)
  show ?case
  proof (cases "make_icon lib square sz")
    case (Inl e)
    then show ?thesis by simp
  next
    case (Inr icon_rgb)
    have "fst (save_icons lib square sizes (save fs (output_path sz) icon_rgb)) p =
          save fs (output_path sz) icon_rgb p"
      using Cons.prems by (intro Cons.IH) simp
    then show ?thesis using Inr Cons.prems by (simp add: save_def)
  qed
qed

lemma save_icons_ok:
  "\<forall>s\<in>set sizes. 1 \<le> logo_size s \<Longrightarrow> snd (save_icons lib square sizes fs) = None"
proof (induction sizes arbitrary: fs)
  case Nil
  then show ?case by simp
next
  case (Cons sz sizes)
  obtain icon_rgb where "make_icon lib square sz = Inr icon_rgb"
    using make_icon_ok [of sz lib square] Cons.prems by auto
  then show ?case using Cons by simp
qed

lemma save_icons_file:
  "\<forall>s\<in>set sizes. 1 \<le> logo_size s \<Longrightarrow> distinct (map output_path sizes) \<Longrightarrow> sz \<in> set sizes \<Longrightarrow>
   \<exists>icon_rgb. fst (save_icons lib square sizes fs) (output_path sz) = Some icon_rgb \<and>
     make_icon lib square sz = Inr icon_rgb"
proof (induction sizes arbitrary: fs)
  case Nil
  then show ?case by simp
next
  case (Cons a sizes)
  obtain icon_a where a: "make_icon lib square a = Inr icon_a"
    using make_icon_ok [of a lib square] Cons.prems(1) by auto
  show ?case
  proof (cases "sz \<in> set sizes")
    case True
    then show ?thesis using Cons a by simp
  next
    case False
    then have sz: "sz = a" using Cons.prems(3) by simp
    have "output_path a \<notin> output_path ` set sizes" using Cons.prems(2) by simp
    then have "fst (save_icons lib square sizes (save fs (output_path a) icon_a)) (output_path a) =
               save fs (output_path a) icon_a (output_path a)"
      by (rule save_icons_other)
    then show ?thesis using a sz by (simp add: save_def)
  qed
qed

lemma logo_sizes_positive: "\<forall>s\<in>set ICON_SIZES. 1 \<le> logo_size s"
  using logo_sizes by (simp add: ICON_SIZES_def)

lemma create_pwa_icons_eq:
  assumes "fs SOURCE_LOGO = Some logo" and "valid_size (width logo) (height logo)"
  shows "\<exists>cropped. crop (convert_rgba logo) (crop_box (width logo) (height logo)) = Inr cropped \<and>
           create_pwa_icons lib fs = save_icons lib (pad_square lib cropped) ICON_SIZES fs"
proof -
  have wh: "width (convert_rgba logo) = width logo" "height (convert_rgba logo) = height logo"
    by (cases "mode logo"; simp add: convert_rgba_def)+
  have "valid_size (width (convert_rgba logo)) (height (convert_rgba logo))"
    using assms(2) by (simp only: wh)
  from crop_ok [OF this] obtain cropped where
    "crop (convert_rgba logo) (crop_box (width logo) (height logo)) = Inr cropped"
    unfolding wh by blast
  then show ?thesis using assms(1) by (simp add: create_pwa_icons_def open_image_def Let_def wh)
qed

text \<open>
  Claim C1. For every size \<open>s\<close> of the configured list the icon that the script writes is
  \<open>s \<times> s\<close> pixels and has mode \<open>RGB\<close>: it has no alpha band, every pixel is opaque.
\<close>

theorem icon_size_and_mode:
  assumes "fs SOURCE_LOGO = Some logo" and "valid_size (width logo) (height logo)"
    and "s \<in> set ICON_SIZES"
  shows "snd (create_pwa_icons lib fs) = None \<and>
         (\<exists>icon_rgb. fst (create_pwa_icons lib fs) (output_path s) = Some icon_rgb \<and>
            mode icon_rgb = RGB \<and> width icon_rgb = s \<and> height icon_rgb = s)"
proof -
  obtain cropped where
    run: "create_pwa_icons lib fs = save_icons lib (pad_square lib cropped) ICON_SIZES fs"
    using create_pwa_icons_eq [where fs = fs and logo = logo and lib = lib, OF assms(1,2)] by blast
  have ok: "snd (create_pwa_icons lib fs) = None"
    unfolding run using logo_sizes_positive by (rule save_icons_ok)
  obtain icon_rgb where
    f: "fst (create_pwa_icons lib fs) (output_path s) = Some icon_rgb"
    and m: "make_icon lib (pad_square lib cropped) s = Inr icon_rgb"
    unfolding run
    using save_icons_file [OF logo_sizes_positive output_paths_distinct assms(3)] by blast
  have "1 \<le> logo_size s" using logo_sizes_positive assms(3) by blast
  from make_icon_ok [OF this, of lib "pad_square lib cropped"] m
  have "mode icon_rgb = RGB \<and> width icon_rgb = s \<and> height icon_rgb = s" by simp
  then show ?thesis using ok f by simp
qed

theorem icon_size_and_mode_witness:
  "((\<lambda>p. None)(SOURCE_LOGO \<mapsto> new_image RGBA (800, 400) [0, 0, 0, 0])) SOURCE_LOGO =
     Some (new_image RGBA (800, 400) [0, 0, 0, 0]) \<and>
   valid_size (width (new_image RGBA (800, 400) [0, 0, 0, 0]))
              (height (new_image RGBA (800, 400) [0, 0, 0, 0])) \<and>
   72 \<in> set ICON_SIZES \<and>
   (\<exists>icon_rgb.
      fst (create_pwa_icons \<lparr>blend = (\<lambda>m a b. b), lanczos = (\<lambda>im sz p. [0, 0, 0, 0])\<rparr>
             ((\<lambda>p. None)(SOURCE_LOGO \<mapsto> new_image RGBA (800, 400) [0, 0, 0, 0])))
          (output_path 72) = Some icon_rgb \<and>
      mode icon_rgb = RGB \<and> width icon_rgb = 72 \<and> height icon_rgb = 72)"
proof -
  have a: "((\<lambda>p. None)(SOURCE_LOGO \<mapsto> new_image RGBA (800, 400) [0, 0, 0, 0])) SOURCE_LOGO =
     Some (new_image RGBA (800, 400) [0, 0, 0, 0])" by simp
  have b: "valid_size (width (new_image RGBA (800, 400) [0, 0, 0, 0]))
              (height (new_image RGBA (800, 400) [0, 0, 0, 0]))"
    by (simp add: new_image_def valid_size_def)
  have c: "72 \<in> set ICON_SIZES" by (simp add: ICON_SIZES_def)
  from icon_size_and_mode [where fs = "(\<lambda>p. None)(SOURCE_LOGO \<mapsto> new_image RGBA (800, 400) [0, 0, 0, 0])"
      and logo = "new_image RGBA (800, 400) [0, 0, 0, 0]" and s = 72
      and lib = "\<lparr>blend = (\<lambda>m a b. b), lanczos = (\<lambda>im sz p. [0, 0, 0, 0])\<rparr>", OF a b c]
  show ?thesis using a b c by blast
qed

text \<open>
  Claim C8. The script writes one file for each of the 8 configured sizes, named
  \<open>icon-<W>x<H>.png\<close> with \<open>W = H\<close> the size, in the directory \<open>image\<close>; the 8 paths are
  different, each holds an icon after the run, and no other file is written.
\<close>

theorem one_file_per_size:
  assumes "fs SOURCE_LOGO = Some logo" and "valid_size (width logo) (height logo)"
  shows "length ICON_SIZES = 8 \<and>
         map output_path ICON_SIZES =
           [''image/icon-72x72.png'', ''image/icon-96x96.png'', ''image/icon-128x128.png'',
            ''image/icon-144x144.png'', ''image/icon-152x152.png'', ''image/icon-192x192.png'',
            ''image/icon-384x384.png'', ''image/icon-512x512.png''] \<and>
         distinct (map output_path ICON_SIZES) \<and>
         snd (create_pwa_icons lib fs) = None \<and>
         (\<forall>s\<in>set ICON_SIZES. \<exists>icon_rgb. fst (create_pwa_icons lib fs) (output_path s) = Some icon_rgb) \<and>
         (\<forall>p. p \<notin> set (map output_path ICON_SIZES) \<longrightarrow> fst (create_pwa_icons lib fs) p = fs p)"
proof -
  obtain cropped where
    run: "create_pwa_icons lib fs = save_icons lib (pad_square lib cropped) ICON_SIZES fs"
    using create_pwa_icons_eq [where fs = fs and logo = logo and lib = lib, OF assms(1,2)] by blast
  have l: "length ICON_SIZES = 8" by (simp add: ICON_SIZES_def)
  have n: "map output_path ICON_SIZES =
           [''image/icon-72x72.png'', ''image/icon-96x96.png'', ''image/icon-128x128.png'',
            ''image/icon-144x144.png'', ''image/icon-152x152.png'', ''image/icon-192x192.png'',
            ''image/icon-384x384.png'', ''image/icon-512x512.png'']"
    unfolding ICON_SIZES_def by (rule output_paths)
  have ok: "snd (create_pwa_icons lib fs) = None"
    unfolding run using logo_sizes_positive by (rule save_icons_ok)
  have f: "\<forall>s\<in>set ICON_SIZES. \<exists>icon_rgb. fst (create_pwa_icons lib fs) (output_path s) = Some icon_rgb"
    unfolding run
    using save_icons_file [OF logo_sizes_positive output_paths_distinct] by blast
  have o: "\<forall>p. p \<notin> set (map output_path ICON_SIZES) \<longrightarrow> fst (create_pwa_icons lib fs) p = fs p"
    unfolding run using save_icons_other by simp
  show ?thesis using l n output_paths_distinct ok f o by (simp only: simp_thms)
qed

theorem one_file_per_size_witness:
  "[SOURCE_LOGO \<mapsto> new_image RGBA (800, 400) [0, 0, 0, 0]] SOURCE_LOGO =
     Some (new_image RGBA (800, 400) [0, 0, 0, 0]) \<and>
   valid_size (width (new_image RGBA (800, 400) [0, 0, 0, 0]))
              (height (new_image RGBA (800, 400) [0, 0, 0, 0])) \<and>
   snd (create_pwa_icons \<lparr>blend = (\<lambda>m a b. b), lanczos = (\<lambda>im sz p. [0, 0, 0, 0])\<rparr>
          [SOURCE_LOGO \<mapsto> new_image RGBA (800, 400) [0, 0, 0, 0]]) = None \<and>
   fst (create_pwa_icons \<lparr>blend = (\<lambda>m a b. b), lanczos = (\<lambda>im sz p. [0, 0, 0, 0])\<rparr>
          [SOURCE_LOGO \<mapsto> new_image RGBA (800, 400) [0, 0, 0, 0]]) ''image/other.png'' = None"
proof -
  have a: "[SOURCE_LOGO \<mapsto> new_image RGBA (800, 400) [0, 0, 0, 0]] SOURCE_LOGO =
     Some (new_image RGBA (800, 400) [0, 0, 0, 0])" by simp
  have b: "valid_size (width (new_image RGBA (800, 400) [0, 0, 0, 0]))
              (height (new_image RGBA (800, 400) [0, 0, 0, 0]))"
    by (simp add: new_image_def valid_size_def)
  have c: "''image/other.png'' \<notin> set
           [''image/icon-72x72.png'', ''image/icon-96x96.png'', ''image/icon-128x128.png'',
            ''image/icon-144x144.png'', ''image/icon-152x152.png'', ''image/icon-192x192.png'',
            ''image/icon-384x384.png'', ''image/icon-512x512.png'']" by simp
  have d: "[SOURCE_LOGO \<mapsto> new_image RGBA (800, 400) [0, 0, 0, 0]] ''image/other.png'' = None"
    by (simp add: SOURCE_LOGO_def)
  from one_file_per_size [where fs = "[SOURCE_LOGO \<mapsto> new_image RGBA (800, 400) [0, 0, 0, 0]]"
      and logo = "new_image RGBA (800, 400) [0, 0, 0, 0]"
      and lib = "\<lparr>blend = (\<lambda>m a b. b), lanczos = (\<lambda>im sz p. [0, 0, 0, 0])\<rparr>", OF a b]
  show ?thesis using a b c d by metis
qed

section \<open>Running the script again\<close>

lemma save_icons_add:
  "\<exists>m e. dom m \<subseteq> output_path ` set sizes \<and> (\<forall>fs. save_icons lib square sizes fs = (fs ++ m, e))"
proof (induction sizes)
  case Nil
  have "dom (Map.empty :: string \<rightharpoonup> image) \<subseteq> output_path ` set [] \<and>
        (\<forall>fs. save_icons lib square [] fs = (fs ++ Map.empty, None))" by simp
  then show ?case by blast
next
  case (Cons a sizes)
  then obtain m e where m: "dom m \<subseteq> output_path ` set sizes"
    and r: "\<And>fs. save_icons lib square sizes fs = (fs ++ m, e)" by blast
  show ?case
  proof (cases "make_icon lib square a")
    case (Inl err)
    have "dom (Map.empty :: string \<rightharpoonup> image) \<subseteq> output_path ` set (a # sizes) \<and>
          (\<forall>fs. save_icons lib square (a # sizes) fs = (fs ++ Map.empty, Some err))"
      using Inl by simp
    then show ?thesis by blast
  next
    case (Inr icon_rgb)
    have "fs(output_path a \<mapsto> icon_rgb) ++ m = fs ++ ([output_path a \<mapsto> icon_rgb] ++ m)" for fs
      by (simp add: map_add_assoc [symmetric])
    then have "\<forall>fs. save_icons lib square (a # sizes) fs = (fs ++ ([output_path a \<mapsto> icon_rgb] ++ m), e)"
      using Inr r by (simp add: save_def)
    moreover have "dom ([output_path a \<mapsto> icon_rgb] ++ m) \<subseteq> output_path ` set (a # sizes)"
      using m by auto
    ultimately show ?thesis by blast
  qed
qed

lemma create_pwa_icons_cases:
  "create_pwa_icons lib fs =
     (case fs SOURCE_LOGO of
        None \<Rightarrow> (fs, Some FileNotFoundError)
      | Some logo \<Rightarrow>
          (case crop (convert_rgba logo)
                  (crop_box (width (convert_rgba logo)) (height (convert_rgba logo))) of
             Inl e \<Rightarrow> (fs, Some e)
           | Inr cropped \<Rightarrow> save_icons lib (pad_square lib cropped) ICON_SIZES fs))"
  by (simp add: create_pwa_icons_def open_image_def Let_def split: option.splits)

lemma create_pwa_icons_again:
  "create_pwa_icons lib (fst (create_pwa_icons lib fs)) = create_pwa_icons lib fs"
proof (cases "fs SOURCE_LOGO")
  case None
  then show ?thesis by (simp add: create_pwa_icons_cases)
next
  case (Some logo)
  show ?thesis
  proof (cases "crop (convert_rgba logo)
                  (crop_box (width (convert_rgba logo)) (height (convert_rgba logo)))")
    case (Inl e)
    then show ?thesis using Some by (simp add: create_pwa_icons_cases)
  next
    case (Inr cropped)
    obtain m e where m: "dom m \<subseteq> output_path ` set ICON_SIZES"
      and r: "\<And>fs. save_icons lib (pad_square lib cropped) ICON_SIZES fs = (fs ++ m, e)"
      using save_icons_add [of ICON_SIZES lib "pad_square lib cropped"] by blast
    have run: "create_pwa_icons lib fs = (fs ++ m, e)"
      using Some Inr r by (simp add: create_pwa_icons_cases)
    have "SOURCE_LOGO \<notin> dom m"
    proof
      assume "SOURCE_LOGO \<in> dom m"
      with m have "SOURCE_LOGO \<in> output_path ` set ICON_SIZES" by (rule subsetD)
      then obtain s where "SOURCE_LOGO = output_path s" by (rule imageE)
      then show False using output_path_not_source [of s] by (simp only: simp_thms)
    qed
    then have "(fs ++ m) SOURCE_LOGO = Some logo" using Some by (simp add: map_add_dom_app_simps)
    then have "create_pwa_icons lib (fs ++ m) = ((fs ++ m) ++ m, e)"
      using Inr r by (simp add: create_pwa_icons_cases)
    moreover have "(fs ++ m) ++ m = fs ++ m"
      by (rule ext) (simp add: map_add_def split: option.splits)
    ultimately show ?thesis unfolding run by simp
  qed
qed

text \<open>
  Claim C7. The icons are a function of the decoded source image and of the
  configuration: two runs on file systems that hold the same valid logo write the
  same image for every configured size, and a second run right after the first one
  changes nothing, since no icon is written over the logo.
\<close>

theorem generator_deterministic:
  "create_pwa_icons lib (fst (create_pwa_icons lib fs)) = create_pwa_icons lib fs \<and>
   (fs SOURCE_LOGO = Some logo \<and> fs' SOURCE_LOGO = Some logo \<and>
    valid_size (width logo) (height logo) \<longrightarrow>
    (\<forall>s\<in>set ICON_SIZES.
       fst (create_pwa_icons lib fs') (output_path s) = fst (create_pwa_icons lib fs) (output_path s) \<and>
       fst (create_pwa_icons lib fs) (output_path s) \<noteq> None))"
proof -
  have "fst (create_pwa_icons lib fs') (output_path s) = fst (create_pwa_icons lib fs) (output_path s) \<and>
        fst (create_pwa_icons lib fs) (output_path s) \<noteq> None"
    if a: "fs SOURCE_LOGO = Some logo" and a': "fs' SOURCE_LOGO = Some logo"
      and v: "valid_size (width logo) (height logo)" and s: "s \<in> set ICON_SIZES" for s
  proof -
    obtain cropped where c: "crop (convert_rgba logo) (crop_box (width logo) (height logo)) = Inr cropped"
      and run: "create_pwa_icons lib fs = save_icons lib (pad_square lib cropped) ICON_SIZES fs"
      using create_pwa_icons_eq [where fs = fs and logo = logo and lib = lib, OF a v] by blast
    obtain cropped' where c': "crop (convert_rgba logo) (crop_box (width logo) (height logo)) = Inr cropped'"
      and run': "create_pwa_icons lib fs' = save_icons lib (pad_square lib cropped') ICON_SIZES fs'"
      using create_pwa_icons_eq [where fs = fs' and logo = logo and lib = lib, OF a' v] by blast
    have same: "cropped' = cropped" using c c' by simp
    obtain icon_rgb where f: "fst (create_pwa_icons lib fs) (output_path s) = Some icon_rgb"
      and i: "make_icon lib (pad_square lib cropped) s = Inr icon_rgb"
      unfolding run
      using save_icons_file [OF logo_sizes_positive output_paths_distinct s] by blast
    obtain icon_rgb' where f': "fst (create_pwa_icons lib fs') (output_path s) = Some icon_rgb'"
      and i': "make_icon lib (pad_square lib cropped) s = Inr icon_rgb'"
      unfolding run' same
      using save_icons_file [OF logo_sizes_positive output_paths_distinct s] by blast
    show ?thesis using f f' i i' by simp
  qed
  then show ?thesis using create_pwa_icons_again by blast
qed

theorem generator_deterministic_witness:
  "[SOURCE_LOGO \<mapsto> new_image RGBA (800, 400) [0, 0, 0, 0]] SOURCE_LOGO =
     Some (new_image RGBA (800, 400) [0, 0, 0, 0]) \<and>
   [SOURCE_LOGO \<mapsto> new_image RGBA (800, 400) [0, 0, 0, 0],
    ''image/other.png'' \<mapsto> new_image RGB (1, 1) [0, 0, 0]] SOURCE_LOGO =
     Some (new_image RGBA (800, 400) [0, 0, 0, 0]) \<and>
   valid_size (width (new_image RGBA (800, 400) [0, 0, 0, 0]))
              (height (new_image RGBA (800, 400) [0, 0, 0, 0])) \<and>
   72 \<in> set ICON_SIZES \<and>
   fst (create_pwa_icons \<lparr>blend = (\<lambda>m a b. b), lanczos = (\<lambda>im sz p. [0, 0, 0, 0])\<rparr>
          [SOURCE_LOGO \<mapsto> new_image RGBA (800, 400) [0, 0, 0, 0],
           ''image/other.png'' \<mapsto> new_image RGB (1, 1) [0, 0, 0]]) (output_path 72) =
   fst (create_pwa_icons \<lparr>blend = (\<lambda>m a b. b), lanczos = (\<lambda>im sz p. [0, 0, 0, 0])\<rparr>
          [SOURCE_LOGO \<mapsto> new_image RGBA (800, 400) [0, 0, 0, 0]]) (output_path 72)"
proof -
  have a: "[SOURCE_LOGO \<mapsto> new_image RGBA (800, 400) [0, 0, 0, 0]] SOURCE_LOGO =
     Some (new_image RGBA (800, 400) [0, 0, 0, 0])" by simp
  have a': "[SOURCE_LOGO \<mapsto> new_image RGBA (800, 400) [0, 0, 0, 0],
    ''image/other.png'' \<mapsto> new_image RGB (1, 1) [0, 0, 0]] SOURCE_LOGO =
     Some (new_image RGBA (800, 400) [0, 0, 0, 0])" by (simp add: SOURCE_LOGO_def)
  have b: "valid_size (width (new_image RGBA (800, 400) [0, 0, 0, 0]))
              (height (new_image RGBA (800, 400) [0, 0, 0, 0]))"
    by (simp add: new_image_def valid_size_def)
  have c: "72 \<in> set ICON_SIZES" by (simp add: ICON_SIZES_def)
  from generator_deterministic [where fs = "[SOURCE_LOGO \<mapsto> new_image RGBA (800, 400) [0, 0, 0, 0]]"
      and fs' = "[SOURCE_LOGO \<mapsto> new_image RGBA (800, 400) [0, 0, 0, 0],
                  ''image/other.png'' \<mapsto> new_image RGB (1, 1) [0, 0, 0]]"
      and logo = "new_image RGBA (800, 400) [0, 0, 0, 0]"
      and lib = "\<lparr>blend = (\<lambda>m a b. b), lanczos = (\<lambda>im sz p. [0, 0, 0, 0])\<rparr>"]
  show ?thesis using a a' b c by blast
qed

end
